theory Spec2Isabelle
  imports Main "HOL-Library.Sublist"
begin

section \<open>Text model\<close>

text \<open>
  A Python \<^verbatim>\<open>str\<close> is a sequence of Unicode code points: a code point is a natural
  number and a text a list of them, so that \<^term>\<open>length\<close> is Python's \<^verbatim>\<open>len\<close> and
  every text has its image, whatever its code points.
\<close>

type_synonym pystr = "nat list"

text \<open>An ASCII literal as a text.\<close>

definition str :: "string \<Rightarrow> pystr" where
  "str s = map of_char s"

text \<open>
  What the interpreter knows about characters is a parameter of the model, the record
  \<open>unicode\<close> of its tables:
  \<^item> \<open>is_word\<close>: the class \<^verbatim>\<open>\w\<close> of \<^verbatim>\<open>re\<close> on a \<^verbatim>\<open>str\<close> pattern;
  \<^item> \<open>is_alpha\<close>: \<^verbatim>\<open>str.isalpha\<close> on one character;
  \<^item> \<open>is_space\<close>: \<^verbatim>\<open>str.isspace\<close> on one character (what \<^verbatim>\<open>str.strip()\<close> removes);
  \<^item> \<open>str_lower\<close>: \<^verbatim>\<open>str.lower\<close>, on a whole text (it may change the length, and
    the capital sigma depends on its neighbours);
  \<^item> \<open>ci_match p c\<close>: under \<^verbatim>\<open>re.IGNORECASE\<close> the literal pattern character
    \<open>p\<close> matches the text character \<open>c\<close>.
  Every function below that classifies characters takes the tables as its first argument,
  and every theorem holds for all tables, or says which property of them it needs.
\<close>

record unicode =
  is_word :: "nat \<Rightarrow> bool"
  is_alpha :: "nat \<Rightarrow> bool"
  is_space :: "nat \<Rightarrow> bool"
  str_lower :: "pystr \<Rightarrow> pystr"
  ci_match :: "nat \<Rightarrow> nat \<Rightarrow> bool"

text \<open>
  The tables of CPython 3 on the code points below 256 (ASCII and Latin-1), for running
  the model on concrete texts of that range; above it this table knows no word
  character, no letter, no space and no case.
\<close>

definition latin1_word :: "nat \<Rightarrow> bool" where
  "latin1_word n =
     ((48 \<le> n \<and> n \<le> 57) \<or> (65 \<le> n \<and> n \<le> 90) \<or> n = 95 \<or> (97 \<le> n \<and> n \<le> 122)
      \<or> n = 170 \<or> n = 178 \<or> n = 179 \<or> n = 181 \<or> n = 185 \<or> n = 186
      \<or> (188 \<le> n \<and> n \<le> 190) \<or> (192 \<le> n \<and> n \<le> 214) \<or> (216 \<le> n \<and> n \<le> 246)
      \<or> (248 \<le> n \<and> n \<le> 255))"

definition latin1_alpha :: "nat \<Rightarrow> bool" where
  "latin1_alpha n =
     ((65 \<le> n \<and> n \<le> 90) \<or> (97 \<le> n \<and> n \<le> 122) \<or> n = 170 \<or> n = 181 \<or> n = 186
      \<or> (192 \<le> n \<and> n \<le> 214) \<or> (216 \<le> n \<and> n \<le> 246) \<or> (248 \<le> n \<and> n \<le> 255))"

definition latin1_space :: "nat \<Rightarrow> bool" where
  "latin1_space n = ((9 \<le> n \<and> n \<le> 13) \<or> (28 \<le> n \<and> n \<le> 32) \<or> n = 133 \<or> n = 160)"

definition latin1_lower :: "nat \<Rightarrow> nat" where
  "latin1_lower n =
     (if (65 \<le> n \<and> n \<le> 90) \<or> (192 \<le> n \<and> n \<le> 214) \<or> (216 \<le> n \<and> n \<le> 222)
      then n + 32 else n)"

definition latin1 :: unicode where
  "latin1 =
     \<lparr>is_word = latin1_word, is_alpha = latin1_alpha, is_space = latin1_space,
      str_lower = map latin1_lower,
      ci_match = (\<lambda>p c. latin1_lower c = latin1_lower p)\<rparr>"

text \<open>\<^verbatim>\<open>str.isalpha\<close>: every character alphabetic, and at least one character.\<close>

definition isalpha :: "unicode \<Rightarrow> pystr \<Rightarrow> bool" where
  "isalpha u s = (s \<noteq> [] \<and> list_all (is_alpha u) s)"

text \<open>\<^verbatim>\<open>str.strip()\<close>.\<close>

definition strip :: "unicode \<Rightarrow> pystr \<Rightarrow> pystr" where
  "strip u s = rev (dropWhile (is_space u) (rev (dropWhile (is_space u) s)))"

text \<open>The slice \<^verbatim>\<open>s[i:j]\<close> for non-negative \<^verbatim>\<open>i\<close>, \<^verbatim>\<open>j\<close>.\<close>

definition slice :: "'a list \<Rightarrow> nat \<Rightarrow> nat \<Rightarrow> 'a list" where
  "slice s i j = take (j - i) (drop i s)"

section \<open>The reference annotator\<close>

subsection \<open>Existing markers\<close>

text \<open>
  \<^verbatim>\<open>existing_wikilink_pattern = r"\[\[[^\]]+\]\]"\<close>. Matching it at the head of a text:
  two opening brackets (code point 91), the longest run of characters other than the
  closing bracket (code point 93; at least one character; giving characters back cannot
  help, since the next character must be a closing bracket), and two closing brackets.
  The result is the length of the match.
\<close>

definition wikilink_len :: "pystr \<Rightarrow> nat option" where
  "wikilink_len s =
     (if prefix (str ''[['') s then
        (let c = takeWhile (\<lambda>x. x \<noteq> 93) (drop 2 s);
             r = dropWhile (\<lambda>x. x \<noteq> 93) (drop 2 s)
         in if c \<noteq> [] \<and> prefix (str '']]'') r then Some (length c + 4) else None)
      else None)"

text \<open>\<^verbatim>\<open>re.match(existing_wikilink_pattern, part)\<close> as a truth value.\<close>

definition re_match_wikilink :: "pystr \<Rightarrow> bool" where
  "re_match_wikilink part = (wikilink_len part \<noteq> None)"

lemma str_open [simp]: "str ''[['' = [91, 91]"
  by (simp add: str_def)

lemma str_close [simp]: "str '']]'' = [93, 93]"
  by (simp add: str_def)

lemma wikilink_len_bounds:
  assumes "wikilink_len s = Some n"
  shows "0 < n \<and> n \<le> length s"
proof -
  define t where "t = drop 2 s"
  define c where "c = takeWhile (\<lambda>x. x \<noteq> (93::nat)) t"
  define r where "r = dropWhile (\<lambda>x. x \<noteq> (93::nat)) t"
  from assms have p: "prefix [91, 91] s" and q: "prefix [93, 93] r" and n: "n = length c + 4"
    by (auto simp: wikilink_len_def Let_def t_def c_def r_def split: if_splits)
  from p have a: "length s = 2 + length t"
    by (auto simp: prefix_def t_def)
  have "t = c @ r"
    by (simp add: c_def r_def)
  then have b: "length t = length c + length r"
    by simp
  from q have "2 \<le> length r"
    by (auto simp: prefix_def)
  with a b n show ?thesis
    by arith
qed

text \<open>
  \<^verbatim>\<open>re.split(f"({existing_wikilink_pattern})", text)\<close>: the scan goes left to right,
  takes the first match it meets and resumes after it; with the capturing group the
  matches are kept, so the result alternates plain text and marker, beginning and
  ending with plain text (possibly empty). \<^term>\<open>acc\<close> is the plain text gathered since
  the last match.
\<close>

function re_split_from :: "pystr \<Rightarrow> pystr \<Rightarrow> pystr list" where
  "re_split_from acc [] = [acc]"
| "re_split_from acc (c # cs) =
     (case wikilink_len (c # cs) of
        Some n \<Rightarrow> acc # take n (c # cs) # re_split_from [] (drop n (c # cs))
      | None \<Rightarrow> re_split_from (acc @ [c]) cs)"
  by pat_completeness auto
termination
proof (relation "measure (\<lambda>(acc, s). length s)")
  fix acc :: pystr and c cs n
  assume "wikilink_len (c # cs) = Some n"
  then have "0 < n" and "n \<le> length (c # cs)"
    using wikilink_len_bounds by blast+
  then have "length (c # cs) - n < length (c # cs)"
    by arith
  then show "(([], drop n (c # cs)), acc, c # cs) \<in> measure (\<lambda>(acc, s). length s)"
    by simp
qed simp_all

definition re_split :: "pystr \<Rightarrow> pystr list" where
  "re_split text = re_split_from [] text"

subsection \<open>Wrapping the terms\<close>

text \<open>\<^verbatim>\<open>\b\<close> between the text \<^term>\<open>pre\<close> already scanned and the text \<^term>\<open>rest\<close> ahead.\<close>

definition word_boundary :: "unicode \<Rightarrow> pystr \<Rightarrow> pystr \<Rightarrow> bool" where
  "word_boundary u pre rest =
     ((pre \<noteq> [] \<and> is_word u (last pre)) \<noteq> (rest \<noteq> [] \<and> is_word u (hd rest)))"

text \<open>
  \<^verbatim>\<open>r"\b" + re.escape(word) + r"\b"\<close> under \<^verbatim>\<open>re.IGNORECASE\<close>, tried at the position
  between \<^term>\<open>pre\<close> and \<^term>\<open>rest\<close>: the escaped word is a sequence of literal
  characters, each matching one character of the text up to case.
\<close>

definition match_term :: "unicode \<Rightarrow> pystr \<Rightarrow> pystr \<Rightarrow> pystr \<Rightarrow> bool" where
  "match_term u word pre rest =
     (word_boundary u pre rest
      \<and> length word \<le> length rest
      \<and> list_all2 (ci_match u) word (take (length word) rest)
      \<and> word_boundary u (pre @ take (length word) rest) (drop (length word) rest))"

text \<open>The callback \<^verbatim>\<open>replace_func\<close>, on the text being substituted and the match's span.\<close>

definition replace_func :: "pystr \<Rightarrow> nat \<Rightarrow> nat \<Rightarrow> pystr" where
  "replace_func modified_part start end =
     (let matched_text = slice modified_part start end;
          before_text = slice modified_part (max 0 (start - 2)) start;
          after_text = slice modified_part end (min (length modified_part) (end + 2))
      in if sublist (str ''[['') before_text \<or> sublist (str '']]'') after_text then matched_text
         else str ''[['' @ matched_text @ str '']]'')"

text \<open>
  \<^verbatim>\<open>re.sub(pattern, replace_func, modified_part, flags=re.IGNORECASE)\<close>: the scan stands
  between \<^term>\<open>pre\<close> and \<^term>\<open>rest\<close> (the text is \<^term>\<open>pre @ rest\<close>, unchanged while the
  scan runs). A match is replaced by what the callback returns and the scan resumes
  after it; an empty match (the empty word) is followed by the next character, copied.
  Where there is no match the character is copied.
\<close>

function re_sub_from :: "unicode \<Rightarrow> pystr \<Rightarrow> pystr \<Rightarrow> pystr \<Rightarrow> pystr" where
  "re_sub_from u word pre rest =
     (if match_term u word pre rest then
        replace_func (pre @ rest) (length pre) (length pre + length word)
        @ (if word = [] then
             (case rest of [] \<Rightarrow> [] | c # cs \<Rightarrow> c # re_sub_from u word (pre @ [c]) cs)
           else re_sub_from u word (pre @ take (length word) rest) (drop (length word) rest))
      else (case rest of [] \<Rightarrow> [] | c # cs \<Rightarrow> c # re_sub_from u word (pre @ [c]) cs))"
  by pat_completeness auto
termination
proof (relation "measure (\<lambda>(u, word, pre, rest). length rest)")
  fix u :: unicode and word pre rest :: pystr
  assume "match_term u word pre rest" and "word \<noteq> []"
  then have "0 < length word" and "length word \<le> length rest"
    by (simp_all add: match_term_def)
  then have "length rest - length word < length rest"
    by arith
  then show "((u, word, pre @ take (length word) rest, drop (length word) rest), u, word, pre, rest)
               \<in> measure (\<lambda>(u, word, pre, rest). length rest)"
    by simp
qed simp_all

declare re_sub_from.simps [simp del]

definition re_sub :: "unicode \<Rightarrow> pystr \<Rightarrow> pystr \<Rightarrow> pystr" where
  "re_sub u word modified_part = re_sub_from u word [] modified_part"

text \<open>
  \<^verbatim>\<open>sorted(words_to_link, key=len, reverse=True)\<close>: longest first, equally long words in
  the order of the list (Python's sort is stable, also under \<^verbatim>\<open>reverse\<close>).
\<close>

definition sorted_words :: "pystr list \<Rightarrow> pystr list" where
  "sorted_words words_to_link = sort_key (\<lambda>w. - int (length w)) words_to_link"

text \<open>The loop over the sorted words, on one plain part.\<close>

definition link_plain :: "unicode \<Rightarrow> pystr list \<Rightarrow> pystr \<Rightarrow> pystr" where
  "link_plain u words_to_link part =
     foldl (\<lambda>modified_part word. re_sub u word modified_part) part (sorted_words words_to_link)"

definition add_wikilinks_to_text :: "unicode \<Rightarrow> pystr \<Rightarrow> pystr list \<Rightarrow> pystr" where
  "add_wikilinks_to_text u text words_to_link =
     concat (map (\<lambda>part. if re_match_wikilink part then part
                          else link_plain u words_to_link part)
                 (re_split text))"

section \<open>Tokenizer and normalizer\<close>

definition MIN_WORD_LENGTH :: nat where
  "MIN_WORD_LENGTH = 4"

definition MIN_FREQUENCY :: nat where
  "MIN_FREQUENCY = 2"

definition TOP_N_WORDS :: nat where
  "TOP_N_WORDS = 20"

text \<open>The table \<^verbatim>\<open>STOPWORDS\<close>, in the order of the source (a Python set: only membership is used).\<close>

definition STOPWORDS :: "pystr list" where
  "STOPWORDS =
    [str ''con'', str ''para'', str ''por'', str ''que'', str ''del'', str ''los'',
     str ''las'', str ''una'', str ''uno'', str ''este'', str ''esta'', str ''estos'',
     str ''estas'', str ''como'', str ''m'' @ [225] @ str ''s'', str ''muy'',
     str ''tambi'' @ [233] @ str ''n'', str ''pero'', str ''sin'', str ''sobre'',
     str ''entre'', str ''hasta'', str ''desde'', str ''hacia'', str ''durante'',
     str ''mediante'', str ''puede'', str ''pueden'', str ''ser'', str ''son'',
     str ''tiene'', str ''tienen'', str ''hacer'', str ''hace'', str ''hacen'',
     str ''decir'', str ''dice'', str ''ver'', str ''vez'', str ''a'' @ [241] @ str ''o'',
     str ''a'' @ [241] @ str ''os'', str ''d'' @ [237] @ str ''a'',
     str ''d'' @ [237] @ str ''as'', str ''caso'', str ''casos'', str ''parte'',
     str ''partes'', str ''forma'', str ''formas'', str ''manera'', str ''maneras'',
     str ''tipo'', str ''tipos'', str ''todo'', str ''todos'', str ''todas'', str ''cada'',
     str ''cual'', str ''cuales'', str ''cuando'', str ''donde'', str ''cualquier'',
     str ''algunos'', str ''algunas'', str ''otro'', str ''otros'', str ''otra'',
     str ''otras'', str ''mismo'', str ''misma'', str ''mismos'', str ''mismas'',
     str ''solo'', str ''sola'', str ''solas'', str ''tanto'', str ''tanta'', str ''tantos'',
     str ''tantas'', str ''menos'', str ''mayor'', str ''mayores'', str ''menor'',
     str ''menores'', str ''mejor'', str ''mejores'', str ''peor'', str ''peores'',
     str ''nuevo'', str ''nueva'', str ''nuevos'', str ''nuevas'', str ''gran'',
     str ''grande'', str ''grandes'', str ''peque'' @ [241] @ str ''o'',
     str ''peque'' @ [241] @ str ''a'', str ''peque'' @ [241] @ str ''os'',
     str ''peque'' @ [241] @ str ''as'', str ''with'', str ''that'', str ''this'',
     str ''the'', str ''a'', str ''an'', str ''and'', str ''or'', str ''but'', str ''for'',
     str ''from'', str ''have'', str ''has'', str ''had'', str ''was'', str ''were'',
     str ''been'', str ''being'', str ''are'', str ''is'', str ''it'', str ''its'',
     str ''they'', str ''them'', str ''their'', str ''there'', str ''these'', str ''those'',
     str ''what'', str ''which'', str ''who'', str ''when'', str ''where'', str ''why'',
     str ''how'', str ''can'', str ''could'', str ''should'', str ''would'', str ''will'',
     str ''shall'', str ''may'', str ''might'', str ''must'', str ''about'', str ''into'',
     str ''onto'', str ''upon'', str ''within'', str ''without'', str ''through'',
     str ''during'', str ''before'', str ''after'', str ''above'', str ''below'',
     str ''under'', str ''over'', str ''between'', str ''among'', str ''while'',
     str ''because'', str ''although'', str ''though'', str ''however'', str ''therefore'',
     str ''thus'', str ''hence'', str ''more'', str ''most'', str ''less'', str ''least'',
     str ''other'', str ''others'', str ''another'', str ''such'', str ''same'',
     str ''very'', str ''much'', str ''many'', str ''some'', str ''any'', str ''all'',
     str ''both'', str ''each'', str ''every'', str ''none'', str ''not'', str ''no'',
     str ''yes'', str ''if'', str ''then'', str ''else'', str ''also'', str ''too'',
     str ''either'', str ''neither'', str ''only'', str ''just'', str ''even'',
     str ''still'', str ''yet'', str ''already'', str ''again'', str ''once'', str ''twice'',
     str ''here'', str ''idea'', str ''ideas'']"

text \<open>
  \<^verbatim>\<open>re.sub(r"[^\w]+$", "", word)\<close>: the first place from which only non-word characters
  follow up to the end of the text is where the one match begins, and it runs to the end;
  what is left is the text without its trailing run of non-word characters.
\<close>

definition strip_trailing_nonword :: "unicode \<Rightarrow> pystr \<Rightarrow> pystr" where
  "strip_trailing_nonword u word = rev (dropWhile (\<lambda>c. \<not> is_word u c) (rev word))"

definition normalize_word :: "unicode \<Rightarrow> pystr \<Rightarrow> pystr" where
  "normalize_word u word = strip_trailing_nonword u (strip u (str_lower u word))"

text \<open>
  \<^verbatim>\<open>re.findall(r"\b\w+\b", text)\<close>: the scan skips non-word characters; at a word
  character it stands at the beginning of a run of word characters (the scan entered
  the text there, or the character before was skipped, or a match ended there), so
  \<^verbatim>\<open>\b\<close> holds, \<^verbatim>\<open>\w+\<close> takes the whole run, \<^verbatim>\<open>\b\<close> holds after it, and
  the scan resumes behind the run.
\<close>

function findall_words :: "unicode \<Rightarrow> pystr \<Rightarrow> pystr list" where
  "findall_words u [] = []"
| "findall_words u (c # cs) =
     (if is_word u c
      then takeWhile (is_word u) (c # cs) # findall_words u (dropWhile (is_word u) (c # cs))
      else findall_words u cs)"
  by pat_completeness auto
termination
proof (relation "measure (\<lambda>(u, s). length s)")
  fix u :: unicode and c :: nat and cs :: pystr
  assume "is_word u c"
  have "length (dropWhile (is_word u) cs) \<le> length cs"
    by (rule length_dropWhile_le)
  with \<open>is_word u c\<close>
  show "((u, dropWhile (is_word u) (c # cs)), u, c # cs) \<in> measure (\<lambda>(u, s). length s)"
    by simp
qed simp_all

definition extract_words :: "unicode \<Rightarrow> pystr \<Rightarrow> pystr list" where
  "extract_words u text =
     filter (\<lambda>normalized. MIN_WORD_LENGTH \<le> length normalized
                          \<and> normalized \<notin> set STOPWORDS
                          \<and> isalpha u normalized)
            (map (normalize_word u) (findall_words u (str_lower u text)))"

section \<open>Document splitter\<close>

text \<open>
  \<^verbatim>\<open>str.split(sep, maxsplit)\<close> for a non-empty separator: \<^term>\<open>split_first\<close> cuts the text
  at the leftmost occurrence of the separator, \<^term>\<open>str_split\<close> does so at most
  \<^term>\<open>maxsplit\<close> times, each time on what follows the last cut.
\<close>

fun split_first :: "pystr \<Rightarrow> pystr \<Rightarrow> (pystr \<times> pystr) option" where
  "split_first sep [] = None"
| "split_first sep (c # cs) =
     (if prefix sep (c # cs) then Some ([], drop (length sep) (c # cs))
      else (case split_first sep cs of
              None \<Rightarrow> None
            | Some (a, b) \<Rightarrow> Some (c # a, b)))"

fun str_split :: "pystr \<Rightarrow> nat \<Rightarrow> pystr \<Rightarrow> pystr list" where
  "str_split sep 0 s = [s]"
| "str_split sep (Suc maxsplit) s =
     (case split_first sep s of
        None \<Rightarrow> [s]
      | Some (a, b) \<Rightarrow> a # str_split sep maxsplit b)"

definition extract_body_text :: "unicode \<Rightarrow> pystr \<Rightarrow> pystr" where
  "extract_body_text u content =
     (let parts = str_split (str ''---'') 2 content
      in if 3 \<le> length parts then strip u (parts ! 2) else strip u content)"

text \<open>
  The separation of front matter and body in \<^verbatim>\<open>process_markdown_file\<close>: no header
  when the split gives fewer than three parts, else \<^verbatim>\<open>frontmatter\<close> and \<^verbatim>\<open>body\<close>.
\<close>

definition split_document :: "pystr \<Rightarrow> pystr option \<times> pystr" where
  "split_document content =
     (let parts = str_split (str ''---'') 2 content
      in if length parts < 3 then (None, content)
         else (Some (parts ! 0 @ str ''---'' @ parts ! 1 @ str ''---''), parts ! 2))"

section \<open>Frequency analyzer\<close>

text \<open>
  A document on disk: its name, what \<^verbatim>\<open>read_text\<close> does (\<^term>\<open>Inl\<close> the message of
  the exception it raises, \<^term>\<open>Inr\<close> the decoded content) and whether \<^verbatim>\<open>write_text\<close>
  succeeds.
\<close>

record md_file =
  name :: pystr
  read_text :: "pystr + pystr"
  writable :: bool

text \<open>
  \<^verbatim>\<open>collections.Counter\<close> over a list: a dictionary, so the keys stay in the order of
  their first insertion. \<^term>\<open>counter_add\<close> counts one more occurrence of a word.
\<close>

fun counter_add :: "pystr \<Rightarrow> (pystr \<times> nat) list \<Rightarrow> (pystr \<times> nat) list" where
  "counter_add w [] = [(w, 1)]"
| "counter_add w ((k, n) # kvs) =
     (if k = w then (k, n + 1) # kvs else (k, n) # counter_add w kvs)"

definition Counter :: "pystr list \<Rightarrow> (pystr \<times> nat) list" where
  "Counter all_words = foldl (\<lambda>kvs w. counter_add w kvs) [] all_words"

text \<open>
  The loop over the files: the state is \<^verbatim>\<open>(all_words, errors)\<close>; a file whose
  reading raises is recorded in \<^verbatim>\<open>errors\<close> and skipped.
\<close>

definition read_step ::
  "unicode \<Rightarrow> pystr list \<times> (pystr \<times> pystr) list \<Rightarrow> md_file \<Rightarrow> pystr list \<times> (pystr \<times> pystr) list" where
  "read_step u st f =
     (case read_text f of
        Inr content \<Rightarrow> (fst st @ extract_words u (extract_body_text u content), snd st)
      | Inl e \<Rightarrow> (fst st, snd st @ [(name f, e)]))"

definition read_all :: "unicode \<Rightarrow> md_file list \<Rightarrow> pystr list \<times> (pystr \<times> pystr) list" where
  "read_all u markdown_files = foldl (read_step u) ([], []) markdown_files"

text \<open>The list \<^verbatim>\<open>frequent\<close> after its sort: by count, largest first, stable.\<close>

definition frequent :: "pystr list \<Rightarrow> (pystr \<times> nat) list" where
  "frequent all_words =
     sort_key (\<lambda>x. - int (snd x))
       (filter (\<lambda>(word, count). MIN_FREQUENCY \<le> count) (Counter all_words))"

definition find_frequent_words :: "unicode \<Rightarrow> md_file list \<Rightarrow> (pystr \<times> nat) list" where
  "find_frequent_words u markdown_files =
     take TOP_N_WORDS (frequent (fst (read_all u markdown_files)))"

section \<open>Processing one file\<close>

text \<open>
  \<^verbatim>\<open>process_markdown_file\<close>: the result is what is written to the file (\<^term>\<open>None\<close> when
  nothing is written) and the value returned. Every exception ends in the handler, which
  returns \<^verbatim>\<open>False\<close>. The line break is code point 10.
\<close>

definition process_markdown_file :: "unicode \<Rightarrow> md_file \<Rightarrow> pystr list \<Rightarrow> pystr option \<times> bool" where
  "process_markdown_file u f words_to_link =
     (case read_text f of
        Inl e \<Rightarrow> (None, False)
      | Inr content \<Rightarrow>
          (case split_document content of
             (None, whole) \<Rightarrow>
               (let new_body = add_wikilinks_to_text u whole words_to_link
                in if new_body \<noteq> whole
                   then (if writable f then (Some new_body, True) else (None, False))
                   else (None, False))
           | (Some frontmatter, body) \<Rightarrow>
               (let new_body = add_wikilinks_to_text u body words_to_link
                in if new_body \<noteq> body
                   then (if writable f
                         then (Some (frontmatter @ [10] @ new_body), True)
                         else (None, False))
                   else (None, False))))"

section \<open>Properties of the annotator\<close>

lemma concat_re_split_from: "concat (re_split_from acc s) = acc @ s"
  by (induction acc s rule: re_split_from.induct) (auto split: option.splits)

lemma concat_re_split: "concat (re_split text) = text"
  by (simp add: re_split_def concat_re_split_from)

lemma link_plain_Nil: "link_plain u [] part = part"
  by (simp add: link_plain_def sorted_words_def)

text \<open>
  Claim C9: annotating with an empty term list returns the body text unchanged, for
  every text (any code points, with or without markers) and whatever the character
  tables are.
\<close>

theorem annotate_no_terms: "add_wikilinks_to_text u text [] = text"
proof -
  have "map (\<lambda>part. if re_match_wikilink part then part else link_plain u [] part) (re_split text)
        = re_split text"
    by (simp add: link_plain_Nil cong: if_cong)
  then show ?thesis
    by (simp add: add_wikilinks_to_text_def concat_re_split)
qed

section \<open>Properties of the tokenizer\<close>

lemma findall_words_token:
  "w \<in> set (findall_words u s) \<Longrightarrow> w \<noteq> [] \<and> list_all (is_word u) w \<and> sublist w s"
proof (induction u s arbitrary: w rule: findall_words.induct)
  case (1 u)
  then show ?case by simp
next
  case (2 u c cs)
  show ?case
  proof (cases "is_word u c")
    case True
    from "2.prems" True
    consider "w = takeWhile (is_word u) (c # cs)"
      | "w \<in> set (findall_words u (dropWhile (is_word u) (c # cs)))"
      by auto
    then show ?thesis
    proof cases
      case 1
      have "sublist (takeWhile (is_word u) (c # cs)) (c # cs)"
        by (rule sublist_takeWhile)
      moreover have "list_all (is_word u) (takeWhile (is_word u) (c # cs))"
        by (auto simp: list_all_iff dest: set_takeWhileD)
      ultimately show ?thesis
        using 1 True by simp
    next
      case 2
      with "2.IH"(1) [OF True]
      have "w \<noteq> [] \<and> list_all (is_word u) w \<and> sublist w (dropWhile (is_word u) (c # cs))"
        by blast
      moreover have "sublist (dropWhile (is_word u) (c # cs)) (c # cs)"
        by (rule sublist_dropWhile)
      ultimately show ?thesis
        by (blast intro: sublist_order.order.trans)
    qed
  next
    case False
    with "2.prems" have "w \<in> set (findall_words u cs)" by simp
    with "2.IH"(2) [OF False] have "w \<noteq> [] \<and> list_all (is_word u) w \<and> sublist w cs"
      by blast
    then show ?thesis
      by (auto simp: sublist_Cons_right)
  qed
qed

lemma dropWhile_id: "s = [] \<or> \<not> P (hd s) \<Longrightarrow> dropWhile P s = s"
  by (cases s) auto

lemma strip_token:
  assumes "w \<noteq> []" and "list_all (is_word u) w" and "\<And>c. is_word u c \<Longrightarrow> \<not> is_space u c"
  shows "strip u w = w"
proof -
  from assms(1,2) have "is_word u (hd w)" and "is_word u (last w)"
    by (auto simp: list_all_iff)
  with assms(3) have h: "\<not> is_space u (hd w)" and l: "\<not> is_space u (last w)"
    by blast+
  from h have "dropWhile (is_space u) w = w"
    by (simp add: dropWhile_id)
  moreover from l assms(1) have "dropWhile (is_space u) (rev w) = rev w"
    by (simp add: dropWhile_id hd_rev)
  ultimately show ?thesis
    by (simp add: strip_def)
qed

lemma strip_trailing_token:
  assumes "w \<noteq> []" and "list_all (is_word u) w"
  shows "strip_trailing_nonword u w = w"
proof -
  from assms have "is_word u (last w)"
    by (auto simp: list_all_iff)
  with assms(1) have "dropWhile (\<lambda>c. \<not> is_word u c) (rev w) = rev w"
    by (simp add: dropWhile_id hd_rev)
  then show ?thesis
    by (simp add: strip_trailing_nonword_def)
qed

text \<open>
  Claim C7: given that lowercasing leaves every piece of a lowercased text as it is and
  that no word character is white space (both hold of Python's tables), the tokenizer
  returns the word tokens of the lowercased text, in their order and with their
  repetitions, that have at least \<^term>\<open>MIN_WORD_LENGTH\<close> = 4 characters, are alphabetic
  and are no stopwords; each of them is lowercased and has no trailing non-word
  character.
\<close>

theorem tokenizer_contract:
  assumes lower_stable: "\<And>s t. sublist t (str_lower u s) \<Longrightarrow> str_lower u t = t"
    and word_not_space: "\<And>c. is_word u c \<Longrightarrow> \<not> is_space u c"
  shows "extract_words u text =
           filter (\<lambda>w. MIN_WORD_LENGTH \<le> length w \<and> w \<notin> set STOPWORDS \<and> isalpha u w)
                  (findall_words u (str_lower u text))
         \<and> MIN_WORD_LENGTH = 4
         \<and> (\<forall>w \<in> set (extract_words u text).
               w \<in> set (findall_words u (str_lower u text))
               \<and> str_lower u w = w
               \<and> strip_trailing_nonword u w = w
               \<and> MIN_WORD_LENGTH \<le> length w
               \<and> list_all (is_alpha u) w
               \<and> w \<notin> set STOPWORDS)"
proof -
  have n: "normalize_word u w = w" if "w \<in> set (findall_words u (str_lower u text))" for w
  proof -
    from findall_words_token [OF that]
    have a: "w \<noteq> []" and b: "list_all (is_word u) w" and c: "sublist w (str_lower u text)"
      by auto
    from c have "str_lower u w = w" by (rule lower_stable)
    with a b word_not_space show ?thesis
      by (simp add: normalize_word_def strip_token strip_trailing_token)
  qed
  then have "map (normalize_word u) (findall_words u (str_lower u text))
             = findall_words u (str_lower u text)"
    by (simp add: map_idI)
  then have f: "extract_words u text =
           filter (\<lambda>w. MIN_WORD_LENGTH \<le> length w \<and> w \<notin> set STOPWORDS \<and> isalpha u w)
                  (findall_words u (str_lower u text))"
    by (simp add: extract_words_def)
  have "w \<in> set (findall_words u (str_lower u text))
        \<and> str_lower u w = w
        \<and> strip_trailing_nonword u w = w
        \<and> MIN_WORD_LENGTH \<le> length w
        \<and> list_all (is_alpha u) w
        \<and> w \<notin> set STOPWORDS" if "w \<in> set (extract_words u text)" for w
  proof -
    from that have t: "w \<in> set (findall_words u (str_lower u text))"
      and k: "MIN_WORD_LENGTH \<le> length w" "w \<notin> set STOPWORDS" "isalpha u w"
      by (simp_all add: f)
    from findall_words_token [OF t]
    have a: "w \<noteq> []" and b: "list_all (is_word u) w" and c: "sublist w (str_lower u text)"
      by auto
    from c have "str_lower u w = w" by (rule lower_stable)
    moreover from a b have "strip_trailing_nonword u w = w" by (rule strip_trailing_token)
    moreover from k(3) have "list_all (is_alpha u) w" by (simp add: isalpha_def)
    ultimately show ?thesis using t k by blast
  qed
  with f show ?thesis
    by (simp add: MIN_WORD_LENGTH_def)
qed

lemma latin1_lower_idem: "latin1_lower (latin1_lower c) = latin1_lower c"
  by (auto simp: latin1_lower_def)

lemma latin1_lower_stable:
  assumes "sublist t (str_lower latin1 s)"
  shows "str_lower latin1 t = t"
proof -
  from assms have "sublist t (map latin1_lower s)"
    by (simp add: latin1_def)
  then have "set t \<subseteq> set (map latin1_lower s)"
    by (rule set_mono_sublist)
  then have "latin1_lower x = x" if "x \<in> set t" for x
    using that latin1_lower_idem by auto
  then show ?thesis
    by (simp add: latin1_def map_idI)
qed

lemma latin1_word_not_space: "is_word latin1 c \<Longrightarrow> \<not> is_space latin1 c"
  by (auto simp: latin1_def latin1_word_def latin1_space_def)

lemma sistema_no_stopword: "str ''sistema'' \<notin> set STOPWORDS"
  by (simp add: STOPWORDS_def str_def)

lemma extract_words_sistema:
  "extract_words latin1 (str ''Sistema, sis.'') = [str ''sistema'']"
proof -
  have "map (normalize_word latin1) (findall_words latin1 (str_lower latin1 (str ''Sistema, sis.'')))
        = [str ''sistema'', str ''sis'']"
    by code_simp
  moreover have "MIN_WORD_LENGTH \<le> length (str ''sistema'')"
    and "isalpha latin1 (str ''sistema'')"
    and "\<not> MIN_WORD_LENGTH \<le> length (str ''sis'')"
    by code_simp+
  ultimately show ?thesis
    using sistema_no_stopword by (simp add: extract_words_def)
qed

theorem tokenizer_contract_witness:
  "str ''sistema'' \<in> set (extract_words latin1 (str ''Sistema, sis.''))
   \<and> str ''sistema'' \<in> set (findall_words latin1 (str_lower latin1 (str ''Sistema, sis.'')))
   \<and> str_lower latin1 (str ''sistema'') = str ''sistema''
   \<and> strip_trailing_nonword latin1 (str ''sistema'') = str ''sistema''
   \<and> MIN_WORD_LENGTH \<le> length (str ''sistema'')
   \<and> list_all (is_alpha latin1) (str ''sistema'')
   \<and> str ''sistema'' \<notin> set STOPWORDS"
proof -
  have m: "str ''sistema'' \<in> set (extract_words latin1 (str ''Sistema, sis.''))"
    by (simp add: extract_words_sistema)
  have "\<forall>w \<in> set (extract_words latin1 (str ''Sistema, sis.'')).
               w \<in> set (findall_words latin1 (str_lower latin1 (str ''Sistema, sis.'')))
               \<and> str_lower latin1 w = w
               \<and> strip_trailing_nonword latin1 w = w
               \<and> MIN_WORD_LENGTH \<le> length w
               \<and> list_all (is_alpha latin1) w
               \<and> w \<notin> set STOPWORDS"
  proof -
    have "extract_words latin1 (str ''Sistema, sis.'') =
           filter (\<lambda>w. MIN_WORD_LENGTH \<le> length w \<and> w \<notin> set STOPWORDS \<and> isalpha latin1 w)
                  (findall_words latin1 (str_lower latin1 (str ''Sistema, sis.'')))
         \<and> MIN_WORD_LENGTH = 4
         \<and> (\<forall>w \<in> set (extract_words latin1 (str ''Sistema, sis.'')).
               w \<in> set (findall_words latin1 (str_lower latin1 (str ''Sistema, sis.'')))
               \<and> str_lower latin1 w = w
               \<and> strip_trailing_nonword latin1 w = w
               \<and> MIN_WORD_LENGTH \<le> length w
               \<and> list_all (is_alpha latin1) w
               \<and> w \<notin> set STOPWORDS)"
      by (rule tokenizer_contract) (erule latin1_lower_stable, erule latin1_word_not_space)
    then show ?thesis
      by (elim conjE)
  qed
  from bspec [OF this m] m show ?thesis
    by (intro conjI) (elim conjE, assumption)+
qed

section \<open>Properties of the document splitter\<close>

lemma str_sep [simp]: "str ''---'' = [45, 45, 45]"
  by (simp add: str_def)

lemma split_first_Some:
  "split_first sep s = Some (a, b) \<Longrightarrow>
     s = a @ sep @ b \<and> (\<forall>a' b'. s = a' @ sep @ b' \<longrightarrow> length a \<le> length a')"
proof (induction s arbitrary: a)
  case Nil
  then show ?case by simp
next
  case (Cons c cs)
  show ?case
  proof (cases "prefix sep (c # cs)")
    case True
    with Cons.prems have "a = []" and "b = drop (length sep) (c # cs)"
      by simp_all
    with True show ?thesis
      by (auto simp: prefix_def)
  next
    case False
    with Cons.prems obtain a0 where s: "split_first sep cs = Some (a0, b)" and a: "a = c # a0"
      by (auto split: option.splits)
    from Cons.IH [OF s] have eq: "cs = a0 @ sep @ b"
      and least: "\<And>a' b'. cs = a' @ sep @ b' \<Longrightarrow> length a0 \<le> length a'"
      by blast+
    have "length a \<le> length a'" if d: "c # cs = a' @ sep @ b'" for a' b'
    proof (cases a')
      case Nil
      with d have "prefix sep (c # cs)" by (simp add: prefix_def)
      with False show ?thesis by simp
    next
      case (Cons x a'')
      with d have "cs = a'' @ sep @ b'" by simp
      from least [OF this] show ?thesis by (simp add: a Cons)
    qed
    with eq a show ?thesis by simp
  qed
qed

lemma split_first_None:
  "sep \<noteq> [] \<Longrightarrow> split_first sep s = None \<Longrightarrow> s \<noteq> a @ sep @ b"
proof (induction s arbitrary: a)
  case Nil
  then show ?case by simp
next
  case (Cons c cs)
  from Cons.prems(2) have np: "\<not> prefix sep (c # cs)" and n: "split_first sep cs = None"
    by (auto split: if_splits option.splits)
  show ?case
  proof (cases a)
    case Nil
    with np show ?thesis by (auto simp: prefix_def)
  next
    case (Cons x a')
    from Cons.IH [OF Cons.prems(1) n, of a'] show ?thesis
      by (simp add: Cons)
  qed
qed

lemma split_first_exists:
  assumes "sep \<noteq> []" and "s = a' @ sep @ b'"
  obtains a b where "split_first sep s = Some (a, b)"
proof (cases "split_first sep s")
  case None
  from split_first_None [OF assms(1) None] assms(2) show ?thesis by blast
next
  case (Some p)
  then show ?thesis using that by (cases p) auto
qed

lemma str_split_two:
  "str_split sep 2 s =
     (case split_first sep s of
        None \<Rightarrow> [s]
      | Some (a, r) \<Rightarrow>
          (case split_first sep r of
             None \<Rightarrow> [a, r]
           | Some (b, c) \<Rightarrow> [a, b, c]))"
  by (simp add: numeral_2_eq_2 split: option.splits)

lemma two_occurrences_second:
  assumes "sep \<noteq> []" and "split_first sep s = Some (a, r)" and "s = a' @ sep @ b' @ sep @ c'"
  shows "\<exists>x. r = x @ sep @ c'"
proof -
  from split_first_Some [OF assms(2)] have eq: "s = a @ sep @ r" and le: "length a \<le> length a'"
    using assms(3) by blast+
  from eq assms(3) have "(a @ sep) @ r = (a' @ sep) @ b' @ sep @ c'" by simp
  moreover from le have "length (a @ sep) \<le> length (a' @ sep)" by simp
  ultimately obtain y where "r = y @ b' @ sep @ c'"
    by (metis append_eq_append_conv_if append_take_drop_id append_assoc)
  then have "r = (y @ b') @ sep @ c'" by simp
  then show ?thesis by blast
qed

text \<open>
  Claim C4, as the code has it: the splitter does not ask that the document begin with
  the boundary. When the boundary \<^verbatim>\<open>---\<close> occurs twice in the document (anywhere,
  without overlap), the header is everything up to and including its second occurrence,
  counted from the left (the text before the first occurrence is the shortest possible,
  and so is the text between the two), and the body is everything after it; when the
  document begins with the boundary, the header is the two boundaries and the text
  between them. Otherwise there is no header and the body is the whole document.
  \<^verbatim>\<open>extract_body_text\<close> returns the same body, stripped.
\<close>

theorem split_document_spec:
  "(case split_document content of
      (None, body) \<Rightarrow>
         body = content
         \<and> \<not> (\<exists>a b c. content = a @ str ''---'' @ b @ str ''---'' @ c)
    | (Some header, body) \<Rightarrow>
         content = header @ body
         \<and> (\<exists>a b. header = a @ str ''---'' @ b @ str ''---''
                \<and> (\<forall>a' r. content = a' @ str ''---'' @ r \<longrightarrow> length a \<le> length a')
                \<and> (\<forall>b' r. b @ str ''---'' @ body = b' @ str ''---'' @ r \<longrightarrow> length b \<le> length b')
                \<and> (prefix (str ''---'') content \<longrightarrow> a = [])))
   \<and> extract_body_text u content = strip u (snd (split_document content))"
proof -
  let ?sep = "str ''---''"
  have ne: "?sep \<noteq> []" by simp
  show ?thesis
  proof (cases "split_first ?sep content")
    case None
    then have "split_document content = (None, content)"
      and "extract_body_text u content = strip u content"
      by (simp_all add: split_document_def extract_body_text_def str_split_two del: str_sep)
    moreover have "content \<noteq> a @ ?sep @ b @ ?sep @ c" for a b c
      using split_first_None [OF ne None, of a "b @ ?sep @ c"] .
    ultimately show ?thesis by (simp del: str_sep)
  next
    case (Some p)
    then obtain a r where 1: "split_first ?sep content = Some (a, r)"
      by (cases p) auto
    show ?thesis
    proof (cases "split_first ?sep r")
      case None
      with 1 have "split_document content = (None, content)"
        and "extract_body_text u content = strip u content"
        by (simp_all add: split_document_def extract_body_text_def str_split_two del: str_sep)
      moreover have "content \<noteq> a' @ ?sep @ b' @ ?sep @ c'" for a' b' c'
      proof
        assume "content = a' @ ?sep @ b' @ ?sep @ c'"
        from two_occurrences_second [OF ne 1 this] obtain x where "r = x @ ?sep @ c'" ..
        with split_first_None [OF ne None] show False by blast
      qed
      ultimately show ?thesis by (simp del: str_sep)
    next
      case (Some q)
      then obtain b c where 2: "split_first ?sep r = Some (b, c)"
        by (cases q) auto
      from 1 2 have d: "split_document content = (Some (a @ ?sep @ b @ ?sep), c)"
        and e: "extract_body_text u content = strip u c"
        by (simp_all add: split_document_def extract_body_text_def str_split_two del: str_sep)
      from split_first_Some [OF 1] have c1: "content = a @ ?sep @ r"
        and l1: "\<And>a' r'. content = a' @ ?sep @ r' \<Longrightarrow> length a \<le> length a'"
        by blast+
      from split_first_Some [OF 2] have c2: "r = b @ ?sep @ c"
        and l2: "\<And>b' r'. r = b' @ ?sep @ r' \<Longrightarrow> length b \<le> length b'"
        by blast+
      have p: "a = []" if "prefix ?sep content"
      proof -
        from that obtain z where "content = [] @ ?sep @ z" by (auto simp: prefix_def)
        from l1 [OF this] show ?thesis by simp
      qed
      from c1 c2 have "content = (a @ ?sep @ b @ ?sep) @ c" by simp
      moreover have "\<exists>a0 b0. a @ ?sep @ b @ ?sep = a0 @ ?sep @ b0 @ ?sep
                \<and> (\<forall>a' r. content = a' @ ?sep @ r \<longrightarrow> length a0 \<le> length a')
                \<and> (\<forall>b' r. b0 @ ?sep @ c = b' @ ?sep @ r \<longrightarrow> length b0 \<le> length b')
                \<and> (prefix ?sep content \<longrightarrow> a0 = [])"
        using l1 l2 c2 p by blast
      ultimately show ?thesis using d e by (simp del: str_sep)
    qed
  qed
qed

theorem split_document_spec_witness:
  "split_document (str ''---a---b'') = (Some (str ''---a---''), str ''b'')
   \<and> prefix (str ''---'') (str ''---a---b'')
   \<and> (\<exists>a b. str ''---a---'' = a @ str ''---'' @ b @ str ''---'' \<and> a = [])"
proof -
  have d: "split_document (str ''---a---b'') = (Some (str ''---a---''), str ''b'')"
    by code_simp
  have p: "prefix (str ''---'') (str ''---a---b'')"
    by code_simp
  from split_document_spec [of "str ''---a---b''" latin1] d p show ?thesis
    by (auto simp del: str_sep)
qed

text \<open>
  The splitter finds a header in a document that does not begin with the boundary.
\<close>

theorem header_not_at_start_counterexample:
  "\<not> prefix (str ''---'') (str ''x---y---z'')
   \<and> split_document (str ''x---y---z'') = (Some (str ''x---y---''), str ''z'')
   \<and> split_document (str ''x---y---z'') \<noteq> (None, str ''x---y---z'')"
  by code_simp

section \<open>Properties of the frequency analyzer\<close>

subsection \<open>Counter\<close>

lemma counter_add_keys:
  "map fst (counter_add w kvs) = (if w \<in> fst ` set kvs then map fst kvs else map fst kvs @ [w])"
  by (induction w kvs rule: counter_add.induct) auto

lemma counter_add_map_of:
  "distinct (map fst kvs) \<Longrightarrow>
   map_of (counter_add w kvs) = (map_of kvs)(w \<mapsto> (case map_of kvs w of None \<Rightarrow> 1 | Some n \<Rightarrow> n + 1))"
  by (induction w kvs rule: counter_add.induct) (auto simp: fun_eq_iff)

lemma Counter_snoc: "Counter (ws @ [w]) = counter_add w (Counter ws)"
  by (simp add: Counter_def)

lemma Counter_keys: "map fst (Counter ws) = rev (remdups (rev ws))"
proof (induction ws rule: rev_induct)
  case Nil
  then show ?case by (simp add: Counter_def)
next
  case (snoc w ws)
  have "fst ` set (Counter ws) = set ws"
    using snoc.IH by (metis set_map set_remdups set_rev)
  then show ?case
    by (simp add: Counter_snoc counter_add_keys snoc.IH)
qed

lemma Counter_distinct: "distinct (map fst (Counter ws))"
  by (simp add: Counter_keys)

lemma Counter_map_of:
  "map_of (Counter ws) w = (if w \<in> set ws then Some (count_list ws w) else None)"
proof (induction ws arbitrary: w rule: rev_induct)
  case Nil
  then show ?case by (simp add: Counter_def)
next
  case (snoc x ws)
  have "x \<notin> set ws \<Longrightarrow> count_list ws x = 0"
    by (simp add: count_list_0_iff)
  then show ?case
    by (simp add: Counter_snoc counter_add_map_of [OF Counter_distinct] snoc.IH)
qed

lemma Counter_mem: "(w, c) \<in> set (Counter ws) \<longleftrightarrow> w \<in> set ws \<and> c = count_list ws w"
proof -
  have "(w, c) \<in> set (Counter ws) \<longleftrightarrow> map_of (Counter ws) w = Some c"
    using Counter_distinct by (metis map_of_eq_Some_iff)
  then show ?thesis
    by (auto simp: Counter_map_of)
qed

subsection \<open>Ranking\<close>

lemma frequent_sorted: "sorted (map (\<lambda>x. - int (snd x)) (frequent ws))"
  by (simp add: frequent_def)

lemma frequent_mem:
  "(w, c) \<in> set (frequent ws) \<longleftrightarrow> w \<in> set ws \<and> c = count_list ws w \<and> MIN_FREQUENCY \<le> c"
  by (auto simp: frequent_def Counter_mem)

lemma frequent_distinct: "distinct (map fst (frequent ws))"
proof -
  have "distinct (map fst (filter (\<lambda>(word, count). MIN_FREQUENCY \<le> count) (Counter ws)))"
    using Counter_distinct by (rule distinct_map_filter)
  then have "distinct (filter (\<lambda>(word, count). MIN_FREQUENCY \<le> count) (Counter ws))"
    and "inj_on fst (set (filter (\<lambda>(word, count). MIN_FREQUENCY \<le> count) (Counter ws)))"
    by (simp_all add: distinct_map)
  then show ?thesis
    by (simp add: frequent_def distinct_map)
qed

lemma frequent_ties:
  "filter (\<lambda>x. snd x = k) (frequent ws) =
     (if MIN_FREQUENCY \<le> k then filter (\<lambda>x. snd x = k) (Counter ws) else [])"
proof -
  have "filter (\<lambda>x. snd x = k) (frequent ws) = filter (\<lambda>x. - int (snd x) = - int k) (frequent ws)"
    by simp
  also have "\<dots> = filter (\<lambda>x. - int (snd x) = - int k)
                     (filter (\<lambda>(word, count). MIN_FREQUENCY \<le> count) (Counter ws))"
    unfolding frequent_def by (rule sort_key_stable)
  also have "\<dots> = filter (\<lambda>x. snd x = k \<and> MIN_FREQUENCY \<le> k) (Counter ws)"
    by (auto simp: case_prod_beta intro: filter_cong)
  finally show ?thesis
    by (simp cong: filter_cong)
qed

lemma prefix_filter_take: "prefix (filter P (take n xs)) (filter P xs)"
proof -
  have "filter P xs = filter P (take n xs) @ filter P (drop n xs)"
    by (metis append_take_drop_id filter_append)
  then show ?thesis
    by (simp add: prefix_def)
qed

lemma find_frequent_words_alt:
  "find_frequent_words u files = take TOP_N_WORDS (frequent (fst (read_all u files)))"
  by (simp add: find_frequent_words_def)

text \<open>
  Claim C5: the term list is sorted by count, largest first; the terms of one count stand
  in the order they have in the count structure, which is the order of their first
  occurrence in the corpus; and the list has at most \<^term>\<open>TOP_N_WORDS\<close> = 20 entries.
\<close>

theorem ranking_sorted_stable_bounded:
  "sorted_wrt (\<lambda>x y. snd y \<le> snd x) (find_frequent_words u files)
   \<and> (\<forall>k. prefix (filter (\<lambda>x. snd x = k) (find_frequent_words u files))
                  (filter (\<lambda>x. snd x = k) (Counter (fst (read_all u files)))))
   \<and> map fst (Counter (fst (read_all u files))) = rev (remdups (rev (fst (read_all u files))))
   \<and> length (find_frequent_words u files) \<le> TOP_N_WORDS
   \<and> TOP_N_WORDS = 20"
proof (intro conjI allI)
  let ?ws = "fst (read_all u files)"
  have "sorted_wrt (\<lambda>x y. - int (snd x) \<le> - int (snd y)) (frequent ?ws)"
    using frequent_sorted [of ?ws] by (simp only: sorted_map)
  then have "sorted_wrt (\<lambda>x y. snd y \<le> snd x) (frequent ?ws)"
    by simp
  then show "sorted_wrt (\<lambda>x y. snd y \<le> snd x) (find_frequent_words u files)"
    unfolding find_frequent_words_alt by (rule sorted_wrt_take)
  show "map fst (Counter ?ws) = rev (remdups (rev ?ws))"
    by (rule Counter_keys)
  show "length (find_frequent_words u files) \<le> TOP_N_WORDS"
    by (simp add: find_frequent_words_alt)
  show "TOP_N_WORDS = 20"
    by (simp add: TOP_N_WORDS_def)
next
  fix k
  let ?ws = "fst (read_all u files)"
  have "prefix (filter (\<lambda>x. snd x = k) (find_frequent_words u files))
               (filter (\<lambda>x. snd x = k) (frequent ?ws))"
    unfolding find_frequent_words_alt by (rule prefix_filter_take)
  moreover have "prefix (filter (\<lambda>x. snd x = k) (frequent ?ws))
                        (filter (\<lambda>x. snd x = k) (Counter ?ws))"
    by (simp add: frequent_ties)
  ultimately show "prefix (filter (\<lambda>x. snd x = k) (find_frequent_words u files))
                          (filter (\<lambda>x. snd x = k) (Counter ?ws))"
    by (rule prefix_order.trans)
qed

subsection \<open>The place of a term of minimal frequency\<close>

lemma sorted_max_suffix:
  "sorted (map f xs) \<Longrightarrow> \<forall>x \<in> set xs. f x \<le> (m::int) \<Longrightarrow>
     xs = filter (\<lambda>x. f x \<noteq> m) xs @ filter (\<lambda>x. f x = m) xs"
proof (induction xs)
  case Nil
  then show ?case by simp
next
  case (Cons x xs)
  show ?case
  proof (cases "f x = m")
    case True
    have "f y = m" if "y \<in> set xs" for y
    proof -
      from Cons.prems(1) that have "f x \<le> f y" by auto
      moreover from Cons.prems(2) that have "f y \<le> m" by auto
      ultimately show ?thesis using True by simp
    qed
    then have "filter (\<lambda>x. f x \<noteq> m) xs = []" and "filter (\<lambda>x. f x = m) xs = xs"
      by (simp_all add: filter_empty_conv)
    with True show ?thesis by simp
  next
    case False
    with Cons show ?thesis by simp
  qed
qed

lemma frequent_split:
  "frequent ws = filter (\<lambda>x. MIN_FREQUENCY < snd x) (frequent ws)
                 @ filter (\<lambda>x. snd x = MIN_FREQUENCY) (Counter ws)"
proof -
  have b: "\<forall>x \<in> set (frequent ws). - int (snd x) \<le> - int MIN_FREQUENCY"
    by (auto simp: frequent_mem)
  have "frequent ws = filter (\<lambda>x. - int (snd x) \<noteq> - int MIN_FREQUENCY) (frequent ws)
                      @ filter (\<lambda>x. - int (snd x) = - int MIN_FREQUENCY) (frequent ws)"
    using frequent_sorted b by (rule sorted_max_suffix)
  moreover have "filter (\<lambda>x. - int (snd x) \<noteq> - int MIN_FREQUENCY) (frequent ws)
                 = filter (\<lambda>x. MIN_FREQUENCY < snd x) (frequent ws)"
    by (rule filter_cong) (auto simp: frequent_mem)
  moreover have "filter (\<lambda>x. - int (snd x) = - int MIN_FREQUENCY) (frequent ws)
                 = filter (\<lambda>x. snd x = MIN_FREQUENCY) (Counter ws)"
    using frequent_ties [of MIN_FREQUENCY ws] by simp
  ultimately show ?thesis by simp
qed

lemma length_better:
  "length (filter (\<lambda>x. MIN_FREQUENCY < snd x) (frequent ws))
   = length (filter (\<lambda>x. MIN_FREQUENCY < snd x) (Counter ws))"
proof -
  have "filter (\<lambda>x. MIN_FREQUENCY < snd x) (frequent ws)
        = sort_key (\<lambda>x. - int (snd x))
            (filter (\<lambda>x. MIN_FREQUENCY < snd x)
               (filter (\<lambda>(word, count). MIN_FREQUENCY \<le> count) (Counter ws)))"
    unfolding frequent_def by (rule filter_sort)
  moreover have "filter (\<lambda>x. MIN_FREQUENCY < snd x)
               (filter (\<lambda>(word, count). MIN_FREQUENCY \<le> count) (Counter ws))
        = filter (\<lambda>x. MIN_FREQUENCY < snd x) (Counter ws)"
    unfolding filter_filter by (rule filter_cong) auto
  ultimately show ?thesis by simp
qed

lemma place_of_minimal:
  assumes "count_list ws w = MIN_FREQUENCY"
  defines "p \<equiv> length (filter (\<lambda>x. MIN_FREQUENCY < snd x) (Counter ws))
              + length (takeWhile (\<lambda>x. fst x \<noteq> w) (filter (\<lambda>x. snd x = MIN_FREQUENCY) (Counter ws)))"
  shows "p < length (frequent ws) \<and> frequent ws ! p = (w, MIN_FREQUENCY)"
proof -
  define A where "A = filter (\<lambda>x. MIN_FREQUENCY < snd x) (frequent ws)"
  define B where "B = filter (\<lambda>x. snd x = MIN_FREQUENCY) (Counter ws)"
  define P where "P = (\<lambda>x :: nat list \<times> nat. fst x \<noteq> w)"
  define T where "T = takeWhile P B"
  define D where "D = dropWhile P B"
  from assms(1) have "count_list ws w \<noteq> 0"
    by (simp add: MIN_FREQUENCY_def)
  then have "w \<in> set ws"
    by (simp add: count_list_0_iff)
  with assms(1) have m: "(w, MIN_FREQUENCY) \<in> set B"
    by (simp add: B_def Counter_mem)
  have "\<not> P (w, MIN_FREQUENCY)"
    by (simp add: P_def)
  with m have "D \<noteq> []"
    unfolding D_def dropWhile_eq_Nil_conv by blast
  then obtain y ys where d: "D = y # ys"
    by (cases D) auto
  from \<open>D \<noteq> []\<close> have "\<not> P (hd D)"
    unfolding D_def by (rule hd_dropWhile)
  with d have "fst y = w"
    by (simp add: P_def)
  moreover have "y \<in> set D"
    by (simp add: d)
  then have "y \<in> set B"
    unfolding D_def by (rule set_dropWhileD)
  ultimately have y: "y = (w, MIN_FREQUENCY)"
    by (cases y) (auto simp: B_def)
  have "B = T @ D"
    by (simp add: T_def D_def)
  with d y have "B = T @ (w, MIN_FREQUENCY) # ys"
    by simp
  moreover have "frequent ws = A @ B"
    unfolding A_def B_def by (rule frequent_split)
  ultimately have f: "frequent ws = (A @ T) @ (w, MIN_FREQUENCY) # ys"
    by simp
  have l: "length (A @ T) = p"
    by (simp add: p_def A_def T_def B_def P_def length_better)
  from f have "length (A @ T) < length (frequent ws)"
    by simp
  moreover from f have "frequent ws ! length (A @ T) = (w, MIN_FREQUENCY)"
    by (simp only: nth_append_length)
  ultimately show ?thesis
    unfolding l by simp
qed

text \<open>
  Claim C6: a term counted \<^term>\<open>MIN_FREQUENCY - 1\<close> times is not in the term list; a term
  counted \<^term>\<open>MIN_FREQUENCY\<close> times is in the ranking, and it is in the term list exactly
  when it survives the truncation, that is when fewer than \<^term>\<open>TOP_N_WORDS\<close> terms are
  ranked before it: those with a larger count and those with the same count met earlier.
\<close>

theorem minimum_frequency_boundary:
  "(count_list (fst (read_all u files)) w = MIN_FREQUENCY - 1
      \<longrightarrow> w \<notin> fst ` set (find_frequent_words u files))
   \<and> (count_list (fst (read_all u files)) w = MIN_FREQUENCY
      \<longrightarrow> (w, MIN_FREQUENCY) \<in> set (frequent (fst (read_all u files)))
          \<and> ((w, MIN_FREQUENCY) \<in> set (find_frequent_words u files)
               \<longleftrightarrow> length (filter (\<lambda>x. MIN_FREQUENCY < snd x) (Counter (fst (read_all u files))))
                    + length (takeWhile (\<lambda>x. fst x \<noteq> w)
                        (filter (\<lambda>x. snd x = MIN_FREQUENCY) (Counter (fst (read_all u files)))))
                    < TOP_N_WORDS))
   \<and> MIN_FREQUENCY = 2"
proof (intro conjI impI)
  let ?ws = "fst (read_all u files)"
  let ?p = "length (filter (\<lambda>x. MIN_FREQUENCY < snd x) (Counter ?ws))
            + length (takeWhile (\<lambda>x. fst x \<noteq> w) (filter (\<lambda>x. snd x = MIN_FREQUENCY) (Counter ?ws)))"
  show "MIN_FREQUENCY = 2"
    by (simp add: MIN_FREQUENCY_def)
  {
    assume c: "count_list ?ws w = MIN_FREQUENCY - 1"
    show "w \<notin> fst ` set (find_frequent_words u files)"
    proof
      assume "w \<in> fst ` set (find_frequent_words u files)"
      then obtain n where "(w, n) \<in> set (take TOP_N_WORDS (frequent ?ws))"
        by (auto simp: find_frequent_words_alt)
      then have "(w, n) \<in> set (frequent ?ws)"
        by (rule in_set_takeD)
      then have "MIN_FREQUENCY \<le> count_list ?ws w"
        by (simp add: frequent_mem)
      with c show False
        by (simp add: MIN_FREQUENCY_def)
    qed
  }
  {
    assume c: "count_list ?ws w = MIN_FREQUENCY"
    from place_of_minimal [OF c]
    have pl: "?p < length (frequent ?ws)" and pn: "frequent ?ws ! ?p = (w, MIN_FREQUENCY)"
      by blast+
    then show "(w, MIN_FREQUENCY) \<in> set (frequent ?ws)"
      by (metis nth_mem)
    have dist: "distinct (frequent ?ws)"
      using frequent_distinct [of ?ws] by (simp add: distinct_map)
    show "(w, MIN_FREQUENCY) \<in> set (find_frequent_words u files) \<longleftrightarrow> ?p < TOP_N_WORDS"
    proof
      assume "(w, MIN_FREQUENCY) \<in> set (find_frequent_words u files)"
      then obtain i where i: "i < length (take TOP_N_WORDS (frequent ?ws))"
        and n: "take TOP_N_WORDS (frequent ?ws) ! i = (w, MIN_FREQUENCY)"
        unfolding find_frequent_words_alt by (auto simp: in_set_conv_nth)
      from i have i1: "i < TOP_N_WORDS" and i2: "i < length (frequent ?ws)"
        by simp_all
      from n i1 have "frequent ?ws ! i = (w, MIN_FREQUENCY)"
        by simp
      with pn have "frequent ?ws ! i = frequent ?ws ! ?p"
        by simp
      with nth_eq_iff_index_eq [OF dist i2 pl] have "i = ?p"
        by simp
      with i1 show "?p < TOP_N_WORDS" by simp
    next
      assume lt: "?p < TOP_N_WORDS"
      with pl have "?p < length (take TOP_N_WORDS (frequent ?ws))"
        by simp
      moreover from lt pn have "take TOP_N_WORDS (frequent ?ws) ! ?p = (w, MIN_FREQUENCY)"
        by simp
      ultimately show "(w, MIN_FREQUENCY) \<in> set (find_frequent_words u files)"
        unfolding find_frequent_words_alt by (metis nth_mem)
    qed
  }
qed

subsection \<open>Unreadable documents\<close>

lemma read_all_foldl:
  "foldl (read_step u) st files =
     (fst st @ concat (map (\<lambda>f. case read_text f of
                                   Inl e \<Rightarrow> []
                                 | Inr content \<Rightarrow> extract_words u (extract_body_text u content)) files),
      snd st @ concat (map (\<lambda>f. case read_text f of
                                   Inl e \<Rightarrow> [(name f, e)]
                                 | Inr content \<Rightarrow> []) files))"
  by (induction files arbitrary: st) (auto simp: read_step_def split: sum.splits)

lemma words_of_readable:
  "concat (map (\<lambda>f. case read_text f of
                      Inl e \<Rightarrow> []
                    | Inr content \<Rightarrow> extract_words u (extract_body_text u content))
               (filter (\<lambda>f. \<not> isl (read_text f)) files))
   = concat (map (\<lambda>f. case read_text f of
                        Inl e \<Rightarrow> []
                      | Inr content \<Rightarrow> extract_words u (extract_body_text u content)) files)"
  by (induction files) (auto split: sum.splits)

text \<open>
  Claim C8: a document whose reading fails is skipped and recorded, and the batch goes
  on: the term list is the one computed over the documents that were read, the words
  gathered are theirs and no others, and \<^verbatim>\<open>errors\<close> holds one entry, name and cause,
  for each failing document. The analyzer returns a term list for every corpus.
\<close>

theorem unreadable_documents_skipped:
  "find_frequent_words u files = find_frequent_words u (filter (\<lambda>f. \<not> isl (read_text f)) files)
   \<and> fst (read_all u files)
       = concat (map (\<lambda>f. case read_text f of
                            Inl e \<Rightarrow> []
                          | Inr content \<Rightarrow> extract_words u (extract_body_text u content)) files)
   \<and> snd (read_all u files)
       = concat (map (\<lambda>f. case read_text f of
                            Inl e \<Rightarrow> [(name f, e)]
                          | Inr content \<Rightarrow> []) files)"
proof -
  have "fst (read_all u (filter (\<lambda>f. \<not> isl (read_text f)) files)) = fst (read_all u files)"
    by (simp add: read_all_def read_all_foldl words_of_readable)
  then show ?thesis
    by (simp add: find_frequent_words_def read_all_def read_all_foldl)
qed

lemma redes_no_stopword: "str ''redes'' \<notin> set STOPWORDS"
  by (simp add: STOPWORDS_def str_def)

lemma sample_words:
  "extract_words latin1 (extract_body_text latin1 (str ''sistema sistema redes''))
   = [str ''sistema'', str ''sistema'', str ''redes'']"
proof -
  have "map (normalize_word latin1)
          (findall_words latin1 (str_lower latin1 (extract_body_text latin1 (str ''sistema sistema redes''))))
        = [str ''sistema'', str ''sistema'', str ''redes'']"
    by code_simp
  moreover have "MIN_WORD_LENGTH \<le> length (str ''sistema'')"
    and "isalpha latin1 (str ''sistema'')"
    and "MIN_WORD_LENGTH \<le> length (str ''redes'')"
    and "isalpha latin1 (str ''redes'')"
    by code_simp+
  ultimately show ?thesis
    using sistema_no_stopword redes_no_stopword by (simp add: extract_words_def)
qed

lemma sample_corpus:
  "fst (read_all latin1
          [\<lparr>name = str ''a.md'', read_text = Inr (str ''sistema sistema redes''), writable = True\<rparr>,
           \<lparr>name = str ''b.md'', read_text = Inl (str ''cannot decode''), writable = True\<rparr>])
   = [str ''sistema'', str ''sistema'', str ''redes'']"
  by (simp add: read_all_def read_step_def sample_words)

theorem minimum_frequency_boundary_witness:
  "count_list (fst (read_all latin1
          [\<lparr>name = str ''a.md'', read_text = Inr (str ''sistema sistema redes''), writable = True\<rparr>,
           \<lparr>name = str ''b.md'', read_text = Inl (str ''cannot decode''), writable = True\<rparr>]))
      (str ''redes'') = MIN_FREQUENCY - 1
   \<and> str ''redes'' \<notin> fst ` set (find_frequent_words latin1
          [\<lparr>name = str ''a.md'', read_text = Inr (str ''sistema sistema redes''), writable = True\<rparr>,
           \<lparr>name = str ''b.md'', read_text = Inl (str ''cannot decode''), writable = True\<rparr>])
   \<and> count_list (fst (read_all latin1
          [\<lparr>name = str ''a.md'', read_text = Inr (str ''sistema sistema redes''), writable = True\<rparr>,
           \<lparr>name = str ''b.md'', read_text = Inl (str ''cannot decode''), writable = True\<rparr>]))
      (str ''sistema'') = MIN_FREQUENCY
   \<and> (str ''sistema'', MIN_FREQUENCY) \<in> set (find_frequent_words latin1
          [\<lparr>name = str ''a.md'', read_text = Inr (str ''sistema sistema redes''), writable = True\<rparr>,
           \<lparr>name = str ''b.md'', read_text = Inl (str ''cannot decode''), writable = True\<rparr>])"
proof -
  let ?files = "[\<lparr>name = str ''a.md'', read_text = Inr (str ''sistema sistema redes''), writable = True\<rparr>,
           \<lparr>name = str ''b.md'', read_text = Inl (str ''cannot decode''), writable = True\<rparr>]"
  let ?ws = "[str ''sistema'', str ''sistema'', str ''redes'']"
  have ws: "fst (read_all latin1 ?files) = ?ws"
    by (rule sample_corpus)
  have r: "count_list ?ws (str ''redes'') = MIN_FREQUENCY - 1"
    by code_simp
  have s: "count_list ?ws (str ''sistema'') = MIN_FREQUENCY"
    by code_simp
  have p: "length (filter (\<lambda>x. MIN_FREQUENCY < snd x) (Counter ?ws))
           + length (takeWhile (\<lambda>x. fst x \<noteq> str ''sistema'')
               (filter (\<lambda>x. snd x = MIN_FREQUENCY) (Counter ?ws)))
           < TOP_N_WORDS"
    by code_simp
  from minimum_frequency_boundary [of latin1 ?files "str ''redes''"] r
  have "str ''redes'' \<notin> fst ` set (find_frequent_words latin1 ?files)"
    unfolding ws by blast
  moreover from minimum_frequency_boundary [of latin1 ?files "str ''sistema''"] s p
  have "(str ''sistema'', MIN_FREQUENCY) \<in> set (find_frequent_words latin1 ?files)"
    unfolding ws by blast
  ultimately show ?thesis
    using r s unfolding ws by blast
qed

section \<open>The guard of the substitution\<close>

lemma sublist_short: "sublist xs ys \<Longrightarrow> length ys \<le> length xs \<Longrightarrow> ys = xs"
  by (auto simp: sublist_def)

lemma sublist_before: "sublist [91, 91] (drop (length pre - 2) pre) \<longleftrightarrow> suffix [91, 91::nat] pre"
proof
  assume "sublist [91, 91] (drop (length pre - 2) pre)"
  then have "drop (length pre - 2) pre = [91, 91]"
    by (rule sublist_short) simp
  then show "suffix [91, 91] pre"
    by (metis suffix_drop)
next
  assume "suffix [91, 91::nat] pre"
  then obtain a where "pre = a @ [91, 91]"
    by (auto simp: suffix_def)
  then show "sublist [91, 91] (drop (length pre - 2) pre)"
    by simp
qed

lemma sublist_after: "sublist [93, 93] (take 2 r) \<longleftrightarrow> prefix [93, 93::nat] r"
proof
  assume "sublist [93, 93] (take 2 r)"
  then have "take 2 r = [93, 93]"
    by (rule sublist_short) simp
  then show "prefix [93, 93] r"
    by (metis take_is_prefix)
next
  assume "prefix [93, 93::nat] r"
  then obtain b where "r = [93, 93] @ b"
    by (auto simp: prefix_def)
  then show "sublist [93, 93] (take 2 r)"
    by simp
qed

lemma replace_func_at:
  assumes "n \<le> length rest"
  shows "replace_func (pre @ rest) (length pre) (length pre + n) =
           (if suffix [91, 91] pre \<or> prefix [93, 93] (drop n rest) then take n rest
            else [91, 91] @ take n rest @ [93, 93])"
proof -
  have m: "slice (pre @ rest) (length pre) (length pre + n) = take n rest"
    by (simp add: slice_def)
  have b: "slice (pre @ rest) (max 0 (length pre - 2)) (length pre) = drop (length pre - 2) pre"
    by (simp add: slice_def)
  have "min (length (pre @ rest)) (length pre + n + 2) - (length pre + n) = min (length rest - n) 2"
    using assms by auto
  moreover have "take (min (length rest - n) 2) (drop n rest) = take 2 (drop n rest)"
    by (cases "2 \<le> length rest - n") (simp_all add: min_def)
  ultimately have a: "slice (pre @ rest) (length pre + n) (min (length (pre @ rest)) (length pre + n + 2))
        = take 2 (drop n rest)"
    by (simp only: slice_def drop_append length_drop drop_all) simp
  show ?thesis
    unfolding replace_func_def Let_def m b a str_open str_close sublist_before sublist_after
    by simp
qed



text \<open>
  Claim C3, on a document with a header whose body holds a term: the file written is the
  header, a line break and the annotated body; the body already begins with the line
  break that followed the header, so the file written differs from the original by the
  inserted brackets and by one more line break.
\<close>

theorem header_reassembly_adds_line_break:
  "process_markdown_file latin1
     \<lparr>name = str ''idea-001-foo.md'',
      read_text = Inr (str ''---\<newline>id: x\<newline>---\<newline>foo''),
      writable = True\<rparr>
     [str ''foo'']
   = (Some (str ''---\<newline>id: x\<newline>---\<newline>\<newline>[[foo]]''), True)"
  by code_simp

end
